theory Spec2Isabelle
  imports Complex_Main
begin

unbundle bit_operations_syntax

section \<open>Data model of \<^verbatim>\<open>src/dht11/__init__.py\<close>\<close>

text \<open>
  Python integers are modelled as \<open>int\<close>, loop counters that start at 0 and only grow as
  \<open>nat\<close>, and the values of Python floats as rationals (\<open>rat\<close>). The threshold
  \<^verbatim>\<open>(min + max) / 2\<close> is rounded as Python rounds it (\<open>true_div_2\<close> below); the
  values \<^verbatim>\<open>b / 10\<close> derived from bytes are kept exact.
  A sampled level is a \<open>bool\<close>; \<open>GPIO.LOW\<close> is 0 and \<open>GPIO.HIGH\<close> is 1 in RPi.GPIO.
\<close>

datatype error =
    DHT11ChecksumError
  | DHT11TimeoutError
  | DHT11InvalidDataError
  | UnboundLocalError
  | AttributeError
  | ValueError
  | IndexError
  | OverflowError

text \<open>\<^verbatim>\<open>except DHT11Error\<close> catches the three subclasses of \<^verbatim>\<open>DHT11Error\<close> only.\<close>

fun is_DHT11Error :: "error \<Rightarrow> bool" where
  "is_DHT11Error DHT11ChecksumError = True"
| "is_DHT11Error DHT11TimeoutError = True"
| "is_DHT11Error DHT11InvalidDataError = True"
| "is_DHT11Error _ = False"

definition GPIO_LOW :: bool where
  "GPIO_LOW = False"

definition GPIO_HIGH :: bool where
  "GPIO_HIGH = True"

record DHT11Response =
  status :: int
  temperature :: rat
  humidity :: rat

definition STATUS_OK :: int where
  "STATUS_OK = 0"

definition STATUS_ERROR_CHECKSUM :: int where
  "STATUS_ERROR_CHECKSUM = 1"

definition STATUS_ERROR_TIMEOUT :: int where
  "STATUS_ERROR_TIMEOUT = 2"

text \<open>\<^verbatim>\<open>DHT11Response.__init__(status, temperature=-1, humidity=-1)\<close>, with all arguments
  and with the status alone.\<close>

definition DHT11Response_init :: "int \<Rightarrow> rat \<Rightarrow> rat \<Rightarrow> DHT11Response" where
  "DHT11Response_init st t h = \<lparr>status = st, temperature = t, humidity = h\<rparr>"

definition DHT11Response_status :: "int \<Rightarrow> DHT11Response" where
  "DHT11Response_status st = DHT11Response_init st (- 1) (- 1)"

definition is_valid :: "DHT11Response \<Rightarrow> bool" where
  "is_valid r = (status r = STATUS_OK)"

text \<open>
  The sensor object. \<^verbatim>\<open>DHT11.__init__\<close> stores \<^verbatim>\<open>signal_pin\<close>, \<^verbatim>\<open>max_tries\<close> and
  \<^verbatim>\<open>min_interval\<close>; it takes \<^verbatim>\<open>raise_error\<close> and does not store it, and the class has no
  attribute of that name. The attribute is therefore optional in the model: \<open>None\<close> is
  an object without the attribute (reading it raises \<^verbatim>\<open>AttributeError\<close>), \<open>Some b\<close> an
  object on which a caller has set it after construction.
\<close>

record DHT11 =
  signal_pin :: int
  max_tries :: int
  min_interval :: rat
  raise_error :: "bool option"

definition MIN_INTERVAL :: rat where
  "MIN_INTERVAL = 2"

definition DHT11_init :: "int \<Rightarrow> int \<Rightarrow> rat \<Rightarrow> bool \<Rightarrow> DHT11" where
  "DHT11_init pin tries interval raise_flag =
     \<lparr>signal_pin = pin, max_tries = tries, min_interval = interval, raise_error = None\<rparr>"

section \<open>\<^verbatim>\<open>__collect_input\<close>\<close>

text \<open>
  The line is a stream of levels: \<open>gpio_input k\<close> is what the \<open>k\<close>-th call of
  \<^verbatim>\<open>GPIO.input\<close> of this acquisition returns. The \<^verbatim>\<open>while\<close> loop has no bound, so the
  model is a partial function: \<open>None\<close> is a loop whose condition never ends it, so that
  no trace is returned. (The model has no memory limit. On a machine the list grows with
  every poll until \<^verbatim>\<open>MemoryError\<close>, which is not a \<^verbatim>\<open>DHT11Error\<close> and is not caught by
  \<^verbatim>\<open>read\<close>.) \<^verbatim>\<open>last\<close> starts at -1, which is no level: \<open>None\<close>.
\<close>

definition unchanged_threshold :: nat where
  "unchanged_threshold = 200"

partial_function (option) collect_loop ::
  "(nat \<Rightarrow> bool) \<Rightarrow> nat \<Rightarrow> nat \<Rightarrow> bool option \<Rightarrow> bool list \<Rightarrow> bool list option" where
  "collect_loop gpio_input polls unchanged_count last_level data =
     (if unchanged_count < unchanged_threshold then
        (let current = gpio_input polls; data' = data @ [current] in
           if last_level \<noteq> Some current
           then collect_loop gpio_input (polls + 1) (0 + 1) (Some current) data'
           else collect_loop gpio_input (polls + 1) (unchanged_count + 1) last_level data')
      else Some data)"

declare collect_loop.simps [code]

definition collect_input :: "(nat \<Rightarrow> bool) \<Rightarrow> bool list option" where
  "collect_input gpio_input = collect_loop gpio_input 0 0 None []"

section \<open>\<^verbatim>\<open>__parse_input_data\<close>\<close>

text \<open>
  The first \<^verbatim>\<open>for i in range(input_length)\<close> loop, over the indices still to visit.
  The loop variable is \<open>None\<close> while unbound; each iteration binds it, and \<^verbatim>\<open>break\<close>
  leaves it at the index of the breaking iteration. \<open>advance_pattern\<close> is the first two
  \<^verbatim>\<open>if\<close> statements of the body, the third is the \<^verbatim>\<open>break\<close>.
\<close>

definition advance_pattern :: "nat \<Rightarrow> bool \<Rightarrow> nat" where
  "advance_pattern pattern level =
     (let pattern1 = (if pattern = 0 \<and> level = GPIO_LOW then 1 else pattern)
      in if pattern1 = 1 \<and> level = GPIO_HIGH then 2 else pattern1)"

fun find_beginning :: "bool list \<Rightarrow> nat list \<Rightarrow> nat \<Rightarrow> nat option \<Rightarrow> nat option" where
  "find_beginning data [] pattern i = i"
| "find_beginning data (k # ks) pattern i =
     (if advance_pattern pattern (data ! k) = 2 \<and> data ! k = GPIO_LOW then Some k
      else find_beginning data ks (advance_pattern pattern (data ! k)) (Some k))"

text \<open>The second loop, \<^verbatim>\<open>for j in range(i, input_length)\<close>.\<close>

fun collect_signals :: "bool list \<Rightarrow> nat list \<Rightarrow> int \<Rightarrow> int list \<Rightarrow> int list" where
  "collect_signals data [] high_signal_length signals = signals"
| "collect_signals data (j # js) high_signal_length signals =
     (if data ! j = GPIO_HIGH then collect_signals data js (high_signal_length + 1) signals
      else if high_signal_length > 0
           then collect_signals data js 0 (signals @ [high_signal_length])
           else collect_signals data js high_signal_length signals)"

text \<open>
  After the first loop the code reads \<open>i\<close>: on an empty trace the loop body never ran and
  the read raises \<^verbatim>\<open>UnboundLocalError\<close>. Every index read is below \<open>length data\<close>.
\<close>

definition parse_input_data :: "bool list \<Rightarrow> error + int list" where
  "parse_input_data data =
     (let input_length = length data in
      case find_beginning data [0..<input_length] 0 None of
        None \<Rightarrow> Inl UnboundLocalError
      | Some i \<Rightarrow>
          if i \<ge> input_length then Inr []
          else Inr (collect_signals data [i..<input_length] 0 []))"

section \<open>\<^verbatim>\<open>__calculate_bits\<close>\<close>

text \<open>\<^verbatim>\<open>min\<close> and \<^verbatim>\<open>max\<close> of a list raise \<^verbatim>\<open>ValueError\<close> on the empty list.\<close>

definition py_min :: "int list \<Rightarrow> error + int" where
  "py_min xs = (case xs of [] \<Rightarrow> Inl ValueError | x # ys \<Rightarrow> Inr (fold min ys x))"

definition py_max :: "int list \<Rightarrow> error + int" where
  "py_max xs = (case xs of [] \<Rightarrow> Inl ValueError | x # ys \<Rightarrow> Inr (fold max ys x))"

text \<open>
  \<^verbatim>\<open>n / 2\<close> for a Python integer \<open>n\<close> is true division: the double nearest to the exact
  quotient, ties to even, and \<^verbatim>\<open>OverflowError\<close> when that is beyond the doubles. A double
  has 53 significant bits, so the quotient is exact when \<open>\<bar>n\<bar> < 2 ^ 53\<close>; otherwise
  \<open>n / 2\<close> lies in the binade whose unit in the last place is \<open>2 ^ (s - 1)\<close> with
  \<open>s = bit_length \<bar>n\<bar> - 53\<close>, and the result is \<open>n / 2 ^ s\<close> rounded to an integer, times
  that unit. The comparison \<^verbatim>\<open>signal > half_length\<close> of an integer with a float is exact in
  Python.
\<close>

function bit_length :: "int \<Rightarrow> nat" where
  "bit_length n = (if n \<le> 0 then 0 else Suc (bit_length (n div 2)))"
  by pat_completeness auto
termination
  by (relation "measure nat") auto

declare bit_length.simps [simp del]

definition round_half_even :: "int \<Rightarrow> nat \<Rightarrow> int" where
  "round_half_even n s =
     (let d = 2 ^ s; fl = n div d; r = n mod d
      in if 2 * r < d then fl
         else if 2 * r > d then fl + 1
         else if even fl then fl else fl + 1)"

definition true_div_2 :: "int \<Rightarrow> error + rat" where
  "true_div_2 n =
     (if \<bar>n\<bar> < 2 ^ 53 then Inr (of_int n / 2)
      else
        (let s = bit_length \<bar>n\<bar> - 53;
             r = round_half_even n s * 2 ^ (s - 1)
         in if \<bar>r\<bar> \<ge> 2 ^ 1024 then Inl OverflowError else Inr (of_int r)))"

definition shift_in :: "rat \<Rightarrow> int \<Rightarrow> int \<Rightarrow> int" where
  "shift_in half_length signal bits =
     (let bits1 = push_bit 1 bits in
      if of_int signal > half_length then bits1 OR 1 else bits1)"

definition calculate_bits :: "int list \<Rightarrow> error + int list" where
  "calculate_bits signals =
     (case py_min signals of
        Inl e \<Rightarrow> Inl e
      | Inr lo \<Rightarrow>
         (case py_max signals of
            Inl e \<Rightarrow> Inl e
          | Inr hi \<Rightarrow>
             (case true_div_2 (lo + hi) of
                Inl e \<Rightarrow> Inl e
              | Inr half_length \<Rightarrow>
                 (let bits = fold (shift_in half_length) signals 0
                  in Inr [drop_bit 32 bits AND 255,
                          drop_bit 24 bits AND 255,
                          drop_bit 16 bits AND 255,
                          drop_bit 8 bits AND 255,
                          bits AND 255]))))"

section \<open>\<^verbatim>\<open>__validate_checksum\<close>\<close>

text \<open>Reading \<^verbatim>\<open>bytes[4]\<close> of a list of fewer than five elements raises \<^verbatim>\<open>IndexError\<close>.\<close>

definition validate_checksum :: "int list \<Rightarrow> error + bool" where
  "validate_checksum bytes =
     (if length bytes < 5 then Inl IndexError
      else Inr (bytes ! 4 = (bytes ! 0 + bytes ! 1 + bytes ! 2 + bytes ! 3) AND 255))"

section \<open>\<^verbatim>\<open>read\<close>\<close>

text \<open>
  Lines 290 to 300 of \<^verbatim>\<open>read\<close>: the checksum test and the derivation of the values from
  the five bytes. The indices are in range once \<open>validate_checksum\<close> has returned.
\<close>

definition response_of_bytes :: "int list \<Rightarrow> error + DHT11Response" where
  "response_of_bytes bytes =
     (case validate_checksum bytes of
        Inl e \<Rightarrow> Inl e
      | Inr valid \<Rightarrow>
          if \<not> valid then Inl DHT11ChecksumError
          else
            (let humidity = (of_int (bytes ! 0) :: rat) + of_int (bytes ! 1) / 10;
                 temperature = (of_int (bytes ! 2) :: rat) + of_int (bytes ! 3 AND 127) / 10;
                 temperature' = (if bytes ! 3 AND 128 \<noteq> 0 then temperature * (- 1)
                                 else temperature)
             in Inr (DHT11Response_init STATUS_OK temperature' humidity)))"

text \<open>
  The calls of one attempt on the GPIO port and the clock, in order: lines 274 to 279
  and the \<^verbatim>\<open>GPIO.setup\<close> of \<^verbatim>\<open>__collect_input\<close>.
\<close>

datatype event =
    Setup_out int
  | Setup_in int
  | Output int bool
  | Sleep rat

definition send_signal :: "DHT11 \<Rightarrow> bool \<Rightarrow> rat \<Rightarrow> event list" where
  "send_signal self signal timeout = [Output (signal_pin self) signal, Sleep timeout]"

definition attempt_events :: "DHT11 \<Rightarrow> event list" where
  "attempt_events self =
     [Setup_out (signal_pin self), Sleep (1 / 2)]
     @ send_signal self GPIO_HIGH (5 / 100)
     @ send_signal self GPIO_LOW (2 / 100)
     @ [Setup_in (signal_pin self)]"

text \<open>
  The body of the \<^verbatim>\<open>try\<close> block, from the sampled stream to the response or the
  exception raised; \<open>None\<close> when the sampling loop never exits.
\<close>

definition attempt :: "(nat \<Rightarrow> bool) \<Rightarrow> (error + DHT11Response) option" where
  "attempt gpio_input =
     (case collect_input gpio_input of
        None \<Rightarrow> None
      | Some input_data \<Rightarrow>
          Some (case parse_input_data input_data of
                  Inl e \<Rightarrow> Inl e
                | Inr signals \<Rightarrow>
                    if length signals \<noteq> 40 then Inl DHT11InvalidDataError
                    else (case calculate_bits signals of
                            Inl e \<Rightarrow> Inl e
                          | Inr bytes \<Rightarrow> response_of_bytes bytes)))"

text \<open>
  The \<^verbatim>\<open>while\<close> loop of \<^verbatim>\<open>read\<close> and what follows it. \<open>env n\<close> is the stream of levels the
  line shows during attempt number \<open>n\<close> (counted from 0); an attempt that raises a
  \<^verbatim>\<open>DHT11Error\<close> increments \<open>try_count\<close>, so the attempt number is \<open>try_count\<close>. The
  result carries the log of GPIO and clock calls made. Any other exception leaves
  \<^verbatim>\<open>read\<close>; so does the \<^verbatim>\<open>ValueError\<close> that \<^verbatim>\<open>time.sleep(self.min_interval)\<close> raises in
  the \<^verbatim>\<open>except\<close> block when the interval is negative. (The sleeps of an attempt have the
  positive durations 0.5, 0.05 and 0.02.)
\<close>

function read_loop ::
  "DHT11 \<Rightarrow> (nat \<Rightarrow> nat \<Rightarrow> bool) \<Rightarrow> nat \<Rightarrow> event list
     \<Rightarrow> ((error + DHT11Response) \<times> event list) option" where
  "read_loop self env try_count events =
     (if max_tries self > int try_count then
        (case attempt (env try_count) of
           None \<Rightarrow> None
         | Some (Inr response) \<Rightarrow> Some (Inr response, events @ attempt_events self)
         | Some (Inl e) \<Rightarrow>
             if is_DHT11Error e
             then if min_interval self < 0
                  then Some (Inl ValueError, events @ attempt_events self)
                  else read_loop self env (try_count + 1)
                         (events @ attempt_events self @ [Sleep (min_interval self)])
             else Some (Inl e, events @ attempt_events self))
      else
        (case raise_error self of
           None \<Rightarrow> Some (Inl AttributeError, events)
         | Some flag \<Rightarrow>
             if flag then Some (Inl DHT11TimeoutError, events)
             else Some (Inr (DHT11Response_status STATUS_ERROR_TIMEOUT), events)))"
  by pat_completeness auto
termination
  by (relation "measure (\<lambda>(self, env, try_count, events). nat (max_tries self - int try_count))") auto

declare read_loop.simps [simp del]

definition read :: "DHT11 \<Rightarrow> (nat \<Rightarrow> nat \<Rightarrow> bool) \<Rightarrow> ((error + DHT11Response) \<times> event list) option" where
  "read self env = read_loop self env 0 []"

section \<open>Auxiliary definitions for the proofs\<close>

text \<open>
  The two loops of \<open>parse_input_data\<close> on the samples themselves instead of their
  indices: \<open>marker_end xs pattern\<close> is the number of samples before the one at which the
  first loop breaks (\<open>None\<close> when it does not break), \<open>signals_of\<close> is the second loop.
  They are related to \<open>find_beginning\<close> and \<open>collect_signals\<close> by the lemmas
  \<open>find_beginning_drop\<close> and \<open>collect_signals_drop\<close> below.
\<close>

fun signals_of :: "bool list \<Rightarrow> int \<Rightarrow> int list \<Rightarrow> int list" where
  "signals_of [] h sigs = sigs"
| "signals_of (x # xs) h sigs =
     (if x = GPIO_HIGH then signals_of xs (h + 1) sigs
      else if h > 0 then signals_of xs 0 (sigs @ [h])
      else signals_of xs h sigs)"

fun marker_end :: "bool list \<Rightarrow> nat \<Rightarrow> nat option" where
  "marker_end [] pattern = None"
| "marker_end (x # xs) pattern =
     (if advance_pattern pattern x = 2 \<and> x = GPIO_LOW then Some 0
      else map_option Suc (marker_end xs (advance_pattern pattern x)))"


text \<open>
  Traces described by their runs. A clean high pulse is a gap of \<open>fst gw\<close> Low samples,
  \<open>snd gw\<close> High samples and the Low sample that ends the run. \<open>marked_trace\<close> is a
  trace with a start-of-frame marker (\<open>h\<close> High samples, then \<open>l\<close> Low, \<open>a\<close> High and
  one Low sample), the pulses, and an idle tail of \<open>g\<close> Low and \<open>t\<close> High samples, which
  holds no complete pulse.
\<close>

definition high_pulse :: "nat \<times> nat \<Rightarrow> bool list" where
  "high_pulse gw = replicate (fst gw) GPIO_LOW @ replicate (snd gw) GPIO_HIGH @ [GPIO_LOW]"

definition marked_trace :: "nat \<Rightarrow> nat \<Rightarrow> nat \<Rightarrow> (nat \<times> nat) list \<Rightarrow> nat \<Rightarrow> nat \<Rightarrow> bool list" where
  "marked_trace h l a pulses g t =
     replicate h GPIO_HIGH @ replicate l GPIO_LOW @ replicate a GPIO_HIGH @ [GPIO_LOW]
     @ concat (map high_pulse pulses) @ replicate g GPIO_LOW @ replicate t GPIO_HIGH"

text \<open>
  What the bit decoder is compared with. \<open>bits_value\<close> is the number a bit pattern
  denotes, most significant bit first; \<open>pattern_bytes\<close> are the five bytes of a 40-bit
  pattern, each the value of its eight bits; \<open>threshold\<close> is half the sum of the least
  and the greatest width.
\<close>

fun bits_value :: "bool list \<Rightarrow> int" where
  "bits_value [] = 0"
| "bits_value (b # bs) = of_bool b * 2 ^ length bs + bits_value bs"

definition pattern_bytes :: "bool list \<Rightarrow> int list" where
  "pattern_bytes bs =
     [bits_value (take 8 bs),
      bits_value (take 8 (drop 8 bs)),
      bits_value (take 8 (drop 16 bs)),
      bits_value (take 8 (drop 24 bs)),
      bits_value (take 8 (drop 32 bs))]"

definition threshold :: "int list \<Rightarrow> rat" where
  "threshold ws = of_int (Min (set ws) + Max (set ws)) / 2"

text \<open>The 40 bits of the frame \<open>[40, 2, 23, 5, 70]\<close>, with width 2 for a 0 and 5 for a 1.\<close>

definition sample_widths :: "int list" where
  "sample_widths =
     [2, 2, 5, 2, 5, 2, 2, 2, 2, 2,
      2, 2, 2, 2, 5, 2, 2, 2, 2, 5,
      2, 5, 5, 5, 2, 2, 2, 2, 2, 5,
      2, 5, 2, 5, 2, 2, 2, 5, 5, 2]"

definition sample_bits :: "bool list" where
  "sample_bits =
     [False, False, True, False, True, False, False, False,
      False, False, False, False, False, False, True, False,
      False, False, False, True, False, True, True, True,
      False, False, False, False, False, True, False, True,
      False, True, False, False, False, True, True, False]"

text \<open>
  For the sampler: \<open>stable_at gpio_input n\<close> says that the 200 polls from poll \<open>n\<close> on
  read the same level, a run of \<open>unchanged_threshold\<close> identical levels starting at \<open>n\<close>.
  \<open>sampler_inv\<close> is the loop invariant of \<open>collect_loop\<close> after \<open>k\<close> polls: \<open>data\<close> holds the
  \<open>k\<close> levels read, \<open>last_level\<close> the latest one, and \<open>uc\<close> is the length of the run of
  identical levels that ends the data.
\<close>

definition stable_at :: "(nat \<Rightarrow> bool) \<Rightarrow> nat \<Rightarrow> bool" where
  "stable_at gpio_input n = (\<forall>j<unchanged_threshold. gpio_input (n + j) = gpio_input n)"

definition sampler_inv :: "(nat \<Rightarrow> bool) \<Rightarrow> nat \<Rightarrow> nat \<Rightarrow> bool option \<Rightarrow> bool list \<Rightarrow> bool" where
  "sampler_inv gpio_input k uc last_level data =
     (data = map gpio_input [0..<k]
      \<and> last_level = (if k = 0 then None else Some (gpio_input (k - 1)))
      \<and> uc \<le> k \<and> (0 < k \<longrightarrow> 0 < uc)
      \<and> (\<forall>j<uc. gpio_input (k - 1 - j) = gpio_input (k - 1))
      \<and> (uc < k \<longrightarrow> gpio_input (k - 1 - uc) \<noteq> gpio_input (k - 1)))"


text \<open>
  Lines used as inputs: a line that shows the levels of a list and then stays Low, a line
  that is always Low, a line that changes at every poll, and the trace of the frame
  \<open>[40, 2, 23, 5, 70]\<close> (marker, then the 40 pulses of \<open>sample_widths\<close>).
\<close>

definition stream_of :: "bool list \<Rightarrow> nat \<Rightarrow> bool" where
  "stream_of xs k = (if k < length xs then xs ! k else GPIO_LOW)"

definition idle_line :: "nat \<Rightarrow> bool" where
  "idle_line k = GPIO_LOW"

definition alternating_line :: "nat \<Rightarrow> bool" where
  "alternating_line k = even k"

definition sample_trace :: "bool list" where
  "sample_trace = marked_trace 0 1 1 (map (\<lambda>w. (0, nat w)) sample_widths) 0 0"

text \<open>
  For the retry controller: an environment in which the line is idle during every
  attempt, one in which it changes at every poll, and two in which it is idle during the
  first \<open>k\<close> attempts and then changes at every poll or carries the sample frame. \<open>retry_events self k\<close> is the log
  of \<open>k\<close> failed attempts, each followed by the delay of \<open>min_interval\<close>.
\<close>

definition always_idle :: "nat \<Rightarrow> nat \<Rightarrow> bool" where
  "always_idle n = idle_line"

definition always_alternating :: "nat \<Rightarrow> nat \<Rightarrow> bool" where
  "always_alternating n = alternating_line"

definition idle_then_alternating :: "nat \<Rightarrow> nat \<Rightarrow> nat \<Rightarrow> bool" where
  "idle_then_alternating k n = (if n < k then idle_line else alternating_line)"

definition idle_then_frame :: "nat \<Rightarrow> nat \<Rightarrow> nat \<Rightarrow> bool" where
  "idle_then_frame k n = (if n < k then idle_line else stream_of sample_trace)"

definition retry_events :: "DHT11 \<Rightarrow> nat \<Rightarrow> event list" where
  "retry_events self k = concat (replicate k (attempt_events self @ [Sleep (min_interval self)]))"

section \<open>Checksum and value derivation\<close>

lemma and_255: "(x::int) AND 255 = x mod 256"
proof -
  have "take_bit 8 x = x AND mask 8"
    by (rule take_bit_eq_mask)
  then have "x AND mask 8 = x mod 2 ^ 8"
    by (simp add: take_bit_eq_mod)
  then show ?thesis
    by (simp add: mask_eq_exp_minus_1)
qed

text \<open>
  C4. The frame validator accepts the five-byte frame \<open>[b0, b1, b2, b3, b4]\<close> exactly when
  \<open>b4 = (b0 + b1 + b2 + b3) mod 256\<close>. The equation holds for all integers, so in
  particular for bytes in 0..255.
\<close>

theorem validate_checksum_iff:
  "validate_checksum [b0, b1, b2, b3, b4] = Inr (b4 = (b0 + b1 + b2 + b3) mod 256)"
  by (simp add: validate_checksum_def and_255)

text \<open>
  C5. For every accepted five-byte frame the response has status Ok, humidity
  \<open>b0 + b1 / 10\<close> and temperature \<open>b2 + (b3 AND 0x7F) / 10\<close>, negated when \<open>b3 AND 0x80\<close>
  is set. The frame \<open>[40, 2, 23, 5, 70]\<close> is accepted and gives humidity 40.2 and
  temperature 23.5; the frame \<open>[50, 0, 25, 0x85, 208]\<close> gives temperature -25.5.
\<close>

theorem response_of_bytes_values:
  "(validate_checksum [b0, b1, b2, b3, b4] = Inr True \<longrightarrow>
      response_of_bytes [b0, b1, b2, b3, b4] =
        Inr \<lparr>status = STATUS_OK,
             temperature =
               (if b3 AND 128 \<noteq> 0 then - (of_int b2 + of_int (b3 AND 127) / 10)
                else of_int b2 + of_int (b3 AND 127) / 10),
             humidity = of_int b0 + of_int b1 / 10\<rparr>)
   \<and> validate_checksum [40, 2, 23, 5, 70] = Inr True
   \<and> response_of_bytes [40, 2, 23, 5, 70] =
        Inr \<lparr>status = STATUS_OK, temperature = 235 / 10, humidity = 402 / 10\<rparr>
   \<and> response_of_bytes [50, 0, 25, 133, 208] =
        Inr \<lparr>status = STATUS_OK, temperature = - (255 / 10), humidity = 50\<rparr>"
  by (simp add: response_of_bytes_def validate_checksum_def DHT11Response_init_def Let_def)

theorem response_of_bytes_values_witness:
  "validate_checksum [55, 3, 21, 4, 83] = Inr True
   \<and> response_of_bytes [55, 3, 21, 4, 83] =
        Inr \<lparr>status = STATUS_OK, temperature = 214 / 10, humidity = 553 / 10\<rparr>"
proof -
  have accepted: "validate_checksum [55, 3, 21, 4, 83] = Inr True"
    by (simp add: validate_checksum_def)
  show ?thesis
    using accepted response_of_bytes_values [of 55 3 21 4 83] by simp
qed

section \<open>The pulse extractor\<close>





lemma GPIO_levels [simp]: "GPIO_HIGH \<noteq> GPIO_LOW" "GPIO_LOW \<noteq> GPIO_HIGH"
  by (simp_all add: GPIO_HIGH_def GPIO_LOW_def)

lemma not_GPIO_HIGH [simp]: "(x \<noteq> GPIO_HIGH) = (x = GPIO_LOW)"
  by (simp add: GPIO_HIGH_def GPIO_LOW_def)

lemma collect_signals_drop:
  "drop i data = xs \<Longrightarrow> collect_signals data [i..<length data] h sigs = signals_of xs h sigs"
proof (induction xs arbitrary: i h sigs)
  case Nil
  then show ?case by simp
next
  case (Cons x xs)
  from Cons.prems have lt: "i < length data"
    by (cases "i < length data") simp_all
  from Cons.prems Cons_nth_drop_Suc [OF lt] have x: "data ! i = x" and d: "drop (Suc i) data = xs"
    by simp_all
  show ?case
    using Cons.IH[OF d] lt x by (simp add: upt_conv_Cons)
qed

lemma find_beginning_drop:
  "drop k data = xs \<Longrightarrow>
   find_beginning data [k..<length data] p i =
     (case marker_end xs p of
        Some d \<Rightarrow> Some (k + d)
      | None \<Rightarrow> if xs = [] then i else Some (length data - 1))"
proof (induction xs arbitrary: k p i)
  case Nil
  then show ?case by simp
next
  case (Cons x xs)
  from Cons.prems have lt: "k < length data"
    by (cases "k < length data") simp_all
  from Cons.prems Cons_nth_drop_Suc [OF lt] have x: "data ! k = x" and d: "drop (Suc k) data = xs"
    by simp_all
  have last: "xs = [] \<Longrightarrow> length data - 1 = k"
    using d lt by simp
  show ?case
    using Cons.IH[OF d] lt x last by (auto simp: upt_conv_Cons split: option.splits)
qed

lemma advance_pattern_simps [simp]:
  "advance_pattern 0 GPIO_HIGH = 0"
  "advance_pattern 0 GPIO_LOW = Suc 0"
  "advance_pattern (Suc 0) GPIO_LOW = Suc 0"
  "advance_pattern (Suc 0) GPIO_HIGH = 2"
  "advance_pattern 2 x = 2"
  by (simp_all add: advance_pattern_def)

lemma marker_end_high0:
  "marker_end (replicate h GPIO_HIGH @ xs) 0 = map_option (\<lambda>d. h + d) (marker_end xs 0)"
  by (cases "marker_end xs 0"; induction h) simp_all

lemma marker_end_low1:
  "marker_end (replicate l GPIO_LOW @ xs) (Suc 0) = map_option (\<lambda>d. l + d) (marker_end xs (Suc 0))"
  by (cases "marker_end xs (Suc 0)"; induction l) simp_all

lemma marker_end_low0:
  "0 < l \<Longrightarrow>
   marker_end (replicate l GPIO_LOW @ xs) 0 = map_option (\<lambda>d. l + d) (marker_end xs (Suc 0))"
  using marker_end_low1 [of "l - 1" xs]
  by (cases "marker_end xs (Suc 0)"; cases l) simp_all

lemma marker_end_high2:
  "marker_end (replicate a GPIO_HIGH @ xs) 2 = map_option (\<lambda>d. a + d) (marker_end xs 2)"
  by (cases "marker_end xs 2"; induction a) simp_all

lemma marker_end_high1:
  "0 < a \<Longrightarrow>
   marker_end (replicate a GPIO_HIGH @ xs) (Suc 0) = map_option (\<lambda>d. a + d) (marker_end xs 2)"
  using marker_end_high2 [of "a - 1" xs]
  by (cases "marker_end xs 2"; cases a) simp_all

lemma marker_end_marker:
  "0 < l \<Longrightarrow> 0 < a \<Longrightarrow>
   marker_end (replicate h GPIO_HIGH @ replicate l GPIO_LOW @ replicate a GPIO_HIGH @ GPIO_LOW # rest) 0
     = Some (h + l + a)"
  by (simp add: marker_end_high0 marker_end_low0 marker_end_high1)

lemma marker_end_none:
  "marker_end (replicate h GPIO_HIGH @ replicate l GPIO_LOW @ replicate a GPIO_HIGH) 0 = None"
proof (cases "0 < l")
  case True
  then show ?thesis
    using marker_end_high1 [of a "[]"] marker_end_low0 [of l "[]"]
    by (cases "0 < a") (simp_all add: marker_end_high0 marker_end_low0)
next
  case False
  then show ?thesis
    using marker_end_high0 [of "h + a" "[]"] by (simp add: replicate_add)
qed

lemma signals_of_low0: "signals_of (replicate g GPIO_LOW @ xs) 0 sigs = signals_of xs 0 sigs"
  by (induction g) simp_all

lemma signals_of_high: "signals_of (replicate w GPIO_HIGH @ xs) h sigs = signals_of xs (h + int w) sigs"
  by (induction w arbitrary: h) (simp_all add: add.commute add.left_commute)

lemma signals_of_pulse:
  "0 < snd gw \<Longrightarrow> signals_of (high_pulse gw @ xs) 0 sigs = signals_of xs 0 (sigs @ [int (snd gw)])"
  by (simp add: high_pulse_def signals_of_low0 signals_of_high)

lemma signals_of_pulses:
  "\<forall>gw \<in> set pulses. 0 < snd gw \<Longrightarrow>
   signals_of (concat (map high_pulse pulses) @ xs) 0 sigs =
     signals_of xs 0 (sigs @ map (int \<circ> snd) pulses)"
  by (induction pulses arbitrary: sigs) (simp_all add: signals_of_pulse)

lemma signals_of_tail: "signals_of (replicate g GPIO_LOW @ replicate t GPIO_HIGH) 0 sigs = sigs"
  using signals_of_high [of t "[]" 0 sigs] by (simp add: signals_of_low0)

lemma parse_marked_trace:
  assumes "0 < l" "0 < a" "\<forall>gw \<in> set pulses. 0 < snd gw"
  shows "parse_input_data (marked_trace h l a pulses g t) = Inr (map (int \<circ> snd) pulses)"
proof -
  let ?rest = "concat (map high_pulse pulses) @ replicate g GPIO_LOW @ replicate t GPIO_HIGH"
  let ?data = "marked_trace h l a pulses g t"
  have data: "?data = (replicate h GPIO_HIGH @ replicate l GPIO_LOW @ replicate a GPIO_HIGH) @ GPIO_LOW # ?rest"
    by (simp add: marked_trace_def)
  have m: "marker_end ?data 0 = Some (h + l + a)"
    using marker_end_marker [OF assms(1,2), of h ?rest] by (simp add: marked_trace_def)
  have fb: "find_beginning ?data [0..<length ?data] 0 None = Some (h + l + a)"
    using find_beginning_drop [of 0 ?data ?data 0 None] m by simp
  have dr: "drop (h + l + a) ?data = GPIO_LOW # ?rest"
    unfolding data by (simp del: append_assoc)
  have lt: "h + l + a < length ?data"
    unfolding data by simp
  have "collect_signals ?data [h + l + a..<length ?data] 0 [] = signals_of (GPIO_LOW # ?rest) 0 []"
    using collect_signals_drop [OF dr] by simp
  also have "\<dots> = signals_of ?rest 0 []"
    by simp
  also have "\<dots> = map (int \<circ> snd) pulses"
    using signals_of_pulses [OF assms(3), of "replicate g GPIO_LOW @ replicate t GPIO_HIGH" "[]"]
    by (simp add: signals_of_tail)
  finally show ?thesis
    using fb lt by (simp add: parse_input_data_def Let_def)
qed

text \<open>
  A non-empty trace without a Low, High, Low pattern is a run of High, a run of Low and
  a run of High samples; on it the extractor returns the empty sequence. (The guard
  \<^verbatim>\<open>i >= input_length\<close> is not what returns it: \<open>i\<close> is the last index, and the second
  loop finds no complete run in one sample.)
\<close>

lemma parse_no_marker:
  assumes "0 < h + l + a"
  shows "parse_input_data (replicate h GPIO_HIGH @ replicate l GPIO_LOW @ replicate a GPIO_HIGH) = Inr []"
proof -
  let ?data = "replicate h GPIO_HIGH @ replicate l GPIO_LOW @ replicate a GPIO_HIGH"
  have ne: "?data \<noteq> []" using assms by auto
  have len: "length ?data = h + l + a" by simp
  have fb: "find_beginning ?data [0..<length ?data] 0 None = Some (length ?data - 1)"
    using find_beginning_drop [of 0 ?data ?data 0 None] marker_end_none [of h l a] ne by simp
  have up: "[length ?data - 1..<length ?data] = [length ?data - 1]"
    using assms len by (simp add: upt_conv_Cons del: length_append length_replicate)
  have "collect_signals ?data [length ?data - 1..<length ?data] 0 [] = []"
    unfolding up by simp
  then show ?thesis
    using fb assms len by (simp add: parse_input_data_def Let_def del: length_append length_replicate)
qed


text \<open>
  The first loop leaves \<open>i\<close> unbound on the empty trace only, so that is the only trace on
  which the extractor raises; and the sampler returns at least 200 samples, never the
  empty trace (\<open>collect_input_nonempty\<close> below).
\<close>

lemma find_beginning_bound:
  "i \<noteq> None \<or> ks \<noteq> [] \<Longrightarrow> find_beginning data ks p i \<noteq> None"
  by (induction ks arbitrary: p i) auto

lemma parse_input_data_raises_only_on_empty:
  assumes "parse_input_data data = Inl e"
  shows "data = []"
proof (rule ccontr)
  assume "data \<noteq> []"
  then have "[0..<length data] \<noteq> []"
    by simp
  then have "find_beginning data [0..<length data] 0 None \<noteq> None"
    by (intro find_beginning_bound) simp
  with assms show False
    by (auto simp: parse_input_data_def Let_def split: option.splits if_splits)
qed





text \<open>
  C7. On a trace with a start-of-frame marker followed by exactly 40 clean high pulses
  and an idle tail, the extractor returns exactly 40 widths: the lengths of the High runs,
  in capture order. The run of the tail is dropped.
\<close>

theorem parse_input_data_forty_pulses:
  assumes "0 < l" and "0 < a" and "length pulses = 40"
    and "\<forall>gw \<in> set pulses. 0 < snd gw"
  shows "parse_input_data (marked_trace h l a pulses g t) = Inr (map (int \<circ> snd) pulses)
         \<and> length (map (int \<circ> snd) pulses) = 40"
  using parse_marked_trace [OF assms(1,2,4)] assms(3) by simp

theorem parse_input_data_forty_pulses_witness:
  "(0::nat) < 1 \<and> (0::nat) < 3
   \<and> length (replicate 20 (1::nat, 2::nat) @ replicate 20 (2, 5)) = 40
   \<and> list_all (\<lambda>gw. 0 < snd gw) (replicate 20 (1::nat, 2::nat) @ replicate 20 (2, 5))
   \<and> parse_input_data (marked_trace 4 1 3 (replicate 20 (1, 2) @ replicate 20 (2, 5)) 7 6)
       = Inr (replicate 20 2 @ replicate 20 5)"
proof -
  have l: "(0::nat) < 1" and a: "(0::nat) < 3"
    by simp_all
  have n: "length (replicate 20 (1::nat, 2::nat) @ replicate 20 (2, 5)) = 40"
    by simp
  have pos: "\<forall>gw \<in> set (replicate 20 (1::nat, 2::nat) @ replicate 20 (2, 5)). 0 < snd gw"
    by auto
  have pulses: "list_all (\<lambda>gw. 0 < snd gw) (replicate 20 (1::nat, 2::nat) @ replicate 20 (2, 5))"
    using pos by (simp only: list_all_iff)
  show ?thesis
    using parse_input_data_forty_pulses [OF l a n pos, of 4 7 6] pulses by simp
qed

section \<open>The bit decoder\<close>

lemma bits_value_append: "bits_value (xs @ ys) = bits_value xs * 2 ^ length ys + bits_value ys"
  by (induction xs) (simp_all add: algebra_simps power_add)

lemma bits_value_nonneg: "0 \<le> bits_value xs"
  by (induction xs) simp_all

lemma bits_value_less: "bits_value xs < 2 ^ length xs"
proof (induction xs)
  case Nil
  show ?case by simp
next
  case (Cons b bs)
  have pos: "(0::int) < 2 ^ length bs"
    by simp
  have "bits_value bs < 2 * 2 ^ length bs"
    using Cons pos by linarith
  with Cons show ?case
    by (cases b) simp_all
qed

lemma shift_in_eq: "shift_in half w bits = 2 * bits + of_bool (half < of_int w)"
  by (simp add: shift_in_def Let_def or_one_eq)

lemma fold_shift_in:
  "fold (shift_in half) ws acc =
     acc * 2 ^ length ws + bits_value (map (\<lambda>w. half < of_int w) ws)"
  by (induction ws arbitrary: acc) (simp_all add: shift_in_eq algebra_simps)

lemma byte_of_bits:
  assumes "length bs = 40" and "k \<in> {0, 8, 16, 24, 32}"
  shows "drop_bit (32 - k) (bits_value bs) AND 255 = bits_value (take 8 (drop k bs))"
proof -
  let ?A = "take k bs" and ?B = "take 8 (drop k bs)" and ?C = "drop (k + 8) bs"
  have split: "bs = ?A @ ?B @ ?C"
    by (metis append_take_drop_id drop_drop add.commute)
  have lenB: "length ?B = 8" and lenC: "length ?C = 32 - k"
    using assms by auto
  have "bits_value bs = (bits_value ?A * 2 ^ 8 + bits_value ?B) * 2 ^ (32 - k) + bits_value ?C"
    using bits_value_append [of ?A "?B @ ?C"] bits_value_append [of ?B ?C] lenB lenC
    by (subst split) (simp add: algebra_simps power_add)
  moreover have "0 \<le> bits_value ?C" "bits_value ?C < 2 ^ (32 - k)"
    using bits_value_nonneg [of ?C] bits_value_less [of ?C] lenC by simp_all
  ultimately have "bits_value bs div 2 ^ (32 - k) = bits_value ?A * 2 ^ 8 + bits_value ?B"
    by (simp add: div_pos_pos_trivial)
  moreover have "0 \<le> bits_value ?B" "bits_value ?B < 2 ^ 8"
    using bits_value_nonneg [of ?B] bits_value_less [of ?B] lenB by simp_all
  ultimately show ?thesis
    by (simp add: drop_bit_eq_div and_255 mod_pos_pos_trivial)
qed

lemma true_div_2_exact:
  assumes "\<bar>n\<bar> < 2 ^ 53"
  shows "true_div_2 n = Inr (of_int n / 2)"
  using assms by (simp add: true_div_2_def)

lemma calculate_bits_pattern:
  assumes "length ws = 40" and bound: "\<forall>w \<in> set ws. \<bar>w\<bar> < 2 ^ 52"
  shows "calculate_bits ws = Inr (pattern_bytes (map (\<lambda>w. threshold ws < of_int w) ws))"
proof -
  obtain x xs where ws: "ws = x # xs"
    using assms(1) by (cases ws) simp_all
  have mn: "py_min ws = Inr (Min (set ws))" and mx: "py_max ws = Inr (Max (set ws))"
    unfolding ws py_min_def py_max_def by (simp_all only: list.case Min.set_eq_fold Max.set_eq_fold)
  have ne: "set ws \<noteq> {}"
    using ws by simp
  have "Min (set ws) \<in> set ws"
    using ne by (intro Min_in) simp_all
  moreover have "Max (set ws) \<in> set ws"
    using ne by (intro Max_in) simp_all
  ultimately have "Min (set ws) \<in> set ws" and "Max (set ws) \<in> set ws"
    by blast+
  with bound have "\<bar>Min (set ws)\<bar> < 2 ^ 52" and "\<bar>Max (set ws)\<bar> < 2 ^ 52"
    by blast+
  then have "\<bar>Min (set ws) + Max (set ws)\<bar> < 2 ^ 53"
    by simp
  then have half: "true_div_2 (Min (set ws) + Max (set ws)) = Inr (threshold ws)"
    unfolding threshold_def by (rule true_div_2_exact)
  let ?bs = "map (\<lambda>w. threshold ws < of_int w) ws"
  have len: "length ?bs = 40"
    using assms by simp
  have bits: "fold (shift_in (threshold ws)) ws 0 = bits_value ?bs"
    by (simp add: fold_shift_in)
  have b: "drop_bit 32 (bits_value ?bs) AND 255 = bits_value (take 8 ?bs)"
          "drop_bit 24 (bits_value ?bs) AND 255 = bits_value (take 8 (drop 8 ?bs))"
          "drop_bit 16 (bits_value ?bs) AND 255 = bits_value (take 8 (drop 16 ?bs))"
          "drop_bit 8 (bits_value ?bs) AND 255 = bits_value (take 8 (drop 24 ?bs))"
          "bits_value ?bs AND 255 = bits_value (take 8 (drop 32 ?bs))"
    using byte_of_bits [OF len, of 0] byte_of_bits [OF len, of 8] byte_of_bits [OF len, of 16]
      byte_of_bits [OF len, of 24] byte_of_bits [OF len, of 32]
    by simp_all
  show ?thesis
    unfolding calculate_bits_def mn mx
    using bits b by (simp add: half pattern_bytes_def Let_def del: drop_map take_map)
qed

lemma pattern_eq:
  assumes "list_all2 (\<lambda>b w. if b then thr < of_int w else (of_int w :: rat) < thr) bs ws"
  shows "map (\<lambda>w. thr < of_int w) ws = bs"
  using assms by (induction bs ws rule: list_all2_induct) (auto split: if_splits)

text \<open>
  C6. For every list of 40 widths, each below \<open>2 ^ 52\<close> in absolute value (a width is a
  number of samples of a trace held in memory; in that range the float
  \<^verbatim>\<open>(min + max) / 2\<close> is the exact quotient), the decoder returns the five bytes, most
  significant first, of the bit pattern that has a 1 exactly where the width exceeds
  \<open>(min + max) / 2\<close>, in input order. Hence, when every width is strictly below the
  threshold where a reference pattern has 0 and strictly above it where the pattern has 1,
  the decoder returns the bytes of that pattern.
\<close>

theorem calculate_bits_decodes:
  assumes "length ws = 40" and "\<forall>w \<in> set ws. \<bar>w\<bar> < 2 ^ 52"
  shows "calculate_bits ws = Inr (pattern_bytes (map (\<lambda>w. threshold ws < of_int w) ws))
    \<and> (\<forall>bs. list_all2 (\<lambda>b w. if b then threshold ws < of_int w
                               else of_int w < threshold ws) bs ws
          \<longrightarrow> calculate_bits ws = Inr (pattern_bytes bs))"
  using calculate_bits_pattern [OF assms] pattern_eq [of "threshold ws" _ ws] by auto

text \<open>
  Beyond that range the threshold is the rounded one: with 38 widths \<open>2 ^ 53\<close> and the
  widths \<open>2 ^ 53 + 1\<close> and \<open>2 ^ 53 + 2\<close> the exact quotient is \<open>2 ^ 53 + 1\<close>, the double is
  \<open>2 ^ 53\<close>, and the last two bits are both 1.
\<close>

lemma calculate_bits_rounded_threshold:
  "calculate_bits (replicate 38 (2 ^ 53) @ [2 ^ 53 + 1, 2 ^ 53 + 2]) = Inr [0, 0, 0, 0, 3]"
  by code_simp

lemma true_div_2_overflow: "true_div_2 (2 ^ 1025) = Inl OverflowError"
  by code_simp

lemma threshold_sample: "threshold sample_widths = 7 / 2"
  by (simp add: threshold_def sample_widths_def)

lemma pattern_bytes_sample: "pattern_bytes sample_bits = [40, 2, 23, 5, 70]"
  by (simp add: pattern_bytes_def sample_bits_def)

theorem calculate_bits_decodes_witness:
  "length sample_widths = 40
   \<and> list_all (\<lambda>w. \<bar>w\<bar> < 2 ^ 52) sample_widths
   \<and> list_all2 (\<lambda>b w. if b then threshold sample_widths < of_int w
                      else of_int w < threshold sample_widths) sample_bits sample_widths
   \<and> calculate_bits sample_widths = Inr [40, 2, 23, 5, 70]"
proof -
  have len: "length sample_widths = 40"
    by (simp add: sample_widths_def)
  have small: "list_all (\<lambda>w. \<bar>w\<bar> < 2 ^ 52) sample_widths"
    by (simp add: sample_widths_def)
  have bound: "\<forall>w \<in> set sample_widths. \<bar>w\<bar> < 2 ^ 52"
    using small by (simp only: list_all_iff)
  have clusters: "list_all2 (\<lambda>b w. if b then threshold sample_widths < of_int w
                      else of_int w < threshold sample_widths) sample_bits sample_widths"
    unfolding threshold_sample by (simp add: sample_bits_def sample_widths_def)
  show ?thesis
    using calculate_bits_decodes [OF len bound] len small clusters pattern_bytes_sample by auto
qed

section \<open>The waveform sampler\<close>

lemma sampler_inv_init: "sampler_inv inp 0 0 None []"
  by (simp add: sampler_inv_def)

lemma sampler_invD:
  assumes "sampler_inv inp k uc last_level data"
  shows "data = map inp [0..<k]"
    and "last_level = (if k = 0 then None else Some (inp (k - 1)))"
    and "uc \<le> k" and "0 < k \<longrightarrow> 0 < uc"
    and "\<forall>j<uc. inp (k - 1 - j) = inp (k - 1)"
    and "uc < k \<longrightarrow> inp (k - 1 - uc) \<noteq> inp (k - 1)"
  using assms unfolding sampler_inv_def by blast+

lemma sampler_inv_step:
  assumes inv: "sampler_inv inp k uc last_level data"
  shows "sampler_inv inp (Suc k) (if last_level \<noteq> Some (inp k) then 1 else uc + 1)
           (Some (inp k)) (data @ [inp k])"
proof -
  note data = sampler_invD(1) [OF inv] and last = sampler_invD(2) [OF inv]
    and le = sampler_invD(3) [OF inv] and run = sampler_invD(5) [OF inv]
    and before = sampler_invD(6) [OF inv]
  let ?uc' = "if last_level \<noteq> Some (inp k) then 1 else uc + 1"
  have d': "data @ [inp k] = map inp [0..<Suc k]"
    using data by simp
  have l': "Some (inp k) = (if Suc k = 0 then None else Some (inp (Suc k - 1)))"
    by simp
  have le': "?uc' \<le> Suc k"
    using le by simp
  have pos': "0 < Suc k \<longrightarrow> 0 < ?uc'"
    by simp
  have run': "\<forall>j<?uc'. inp (Suc k - 1 - j) = inp (Suc k - 1)"
  proof (intro allI impI)
    fix j assume j: "j < ?uc'"
    show "inp (Suc k - 1 - j) = inp (Suc k - 1)"
    proof (cases j)
      case 0
      then show ?thesis by simp
    next
      case (Suc j')
      with j have same: "last_level = Some (inp k)" and j': "j' < uc"
        by (auto split: if_splits)
      from same last have eq: "inp (k - 1) = inp k"
        by (auto split: if_splits)
      from run j' have "inp (k - 1 - j') = inp (k - 1)"
        by blast
      moreover have "Suc k - 1 - j = k - 1 - j'"
        using Suc by simp
      ultimately show ?thesis
        using eq by simp
    qed
  qed
  have before': "?uc' < Suc k \<longrightarrow> inp (Suc k - 1 - ?uc') \<noteq> inp (Suc k - 1)"
  proof (cases "last_level = Some (inp k)")
    case True
    with last have eq: "inp (k - 1) = inp k"
      by (auto split: if_splits)
    have "Suc k - 1 - (uc + 1) = k - 1 - uc"
      by simp
    moreover have "uc + 1 < Suc k \<longrightarrow> inp (k - 1 - uc) \<noteq> inp k"
      using before eq by simp
    ultimately show ?thesis
      using True by simp
  next
    case False
    have "0 < k \<longrightarrow> inp (k - 1) \<noteq> inp k"
      using False last by (auto split: if_splits)
    then show ?thesis
      using False by simp
  qed
  show ?thesis
    unfolding sampler_inv_def by (intro conjI d' l' le' pos' run' before')
qed

lemma sampler_inv_exit:
  assumes inv: "sampler_inv inp k uc last_level data" and full: "unchanged_threshold \<le> uc"
  shows "unchanged_threshold \<le> k \<and> stable_at inp (k - unchanged_threshold)"
proof -
  from sampler_invD(3) [OF inv] full have le: "unchanged_threshold \<le> k"
    by simp
  have run: "inp (k - 1 - j) = inp (k - 1)" if "j < uc" for j
    using sampler_invD(5) [OF inv] that by blast
  have pos: "0 < unchanged_threshold"
    by (simp add: unchanged_threshold_def)
  have window: "inp (k - unchanged_threshold + j) = inp (k - 1)" if "j < unchanged_threshold" for j
  proof -
    have "unchanged_threshold - 1 - j < uc"
      using that full by arith
    from run [OF this] have "inp (k - 1 - (unchanged_threshold - 1 - j)) = inp (k - 1)" .
    moreover have "k - 1 - (unchanged_threshold - 1 - j) = k - unchanged_threshold + j"
      using that le by arith
    ultimately show ?thesis
      by simp
  qed
  have "inp (k - unchanged_threshold + j) = inp (k - unchanged_threshold)"
    if "j < unchanged_threshold" for j
    using window [OF that] window [OF pos] by simp
  then have "stable_at inp (k - unchanged_threshold)"
    unfolding stable_at_def by blast
  with le show ?thesis
    by blast
qed

lemma sampler_inv_full:
  assumes inv: "sampler_inv inp (n + unchanged_threshold) uc last_level data"
    and stable: "stable_at inp n"
  shows "unchanged_threshold \<le> uc"
proof (rule ccontr)
  assume "\<not> unchanged_threshold \<le> uc"
  then have lt: "uc < unchanged_threshold"
    by simp
  have pos: "0 < unchanged_threshold"
    by (simp add: unchanged_threshold_def)
  from sampler_invD(6) [OF inv] lt
  have ne: "inp (n + unchanged_threshold - 1 - uc) \<noteq> inp (n + unchanged_threshold - 1)"
    by simp
  have w: "inp (n + j) = inp n" if "j < unchanged_threshold" for j
    using stable that unfolding stable_at_def by blast
  have e1: "n + unchanged_threshold - 1 - uc = n + (unchanged_threshold - 1 - uc)"
    using lt by arith
  have e2: "n + unchanged_threshold - 1 = n + (unchanged_threshold - 1)"
    using pos by arith
  have a: "inp (n + unchanged_threshold - 1 - uc) = inp n"
    by (subst e1, rule w) (use lt in arith)
  have b: "inp (n + unchanged_threshold - 1) = inp n"
    by (subst e2, rule w) (use pos in arith)
  from ne show False
    unfolding a b by blast
qed

lemma collect_loop_returns:
  assumes "stable_at inp n" and "\<forall>m<n. \<not> stable_at inp m"
    and "sampler_inv inp k uc last_level data" and "k \<le> n + unchanged_threshold"
  shows "collect_loop inp k uc last_level data = Some (map inp [0..<n + unchanged_threshold])"
  using assms(3,4)
proof (induction "n + unchanged_threshold - k" arbitrary: k uc last_level data)
  case 0
  then have k: "k = n + unchanged_threshold" by simp
  with "0.prems" assms(1) have "unchanged_threshold \<le> uc"
    using sampler_inv_full by blast
  moreover from sampler_invD(1) [OF "0.prems"(1)] k have "data = map inp [0..<n + unchanged_threshold]"
    by simp
  ultimately show ?case
    by (subst collect_loop.simps) simp
next
  case (Suc d)
  then have klt: "k < n + unchanged_threshold" by arith
  have "uc < unchanged_threshold"
  proof (rule ccontr)
    assume "\<not> uc < unchanged_threshold"
    then have "unchanged_threshold \<le> uc" by simp
    from sampler_inv_exit [OF Suc.prems(1) this]
    have le: "unchanged_threshold \<le> k" and st: "stable_at inp (k - unchanged_threshold)"
      by simp_all
    from le klt have "k - unchanged_threshold < n"
      by arith
    with assms(2) st show False
      by blast
  qed
  moreover have d: "d = n + unchanged_threshold - Suc k"
    using Suc.hyps(2) by arith
  have "collect_loop inp (Suc k) (if last_level \<noteq> Some (inp k) then 1 else uc + 1)
          (Some (inp k)) (data @ [inp k]) = Some (map inp [0..<n + unchanged_threshold])"
    using klt by (intro Suc.hyps(1) [OF d sampler_inv_step [OF Suc.prems(1)]]) arith
  ultimately show ?case
    by (subst collect_loop.simps) (auto simp: Let_def)
qed

lemma collect_input_first_stable:
  assumes "stable_at inp n" and "\<forall>m<n. \<not> stable_at inp m"
  shows "collect_input inp = Some (map inp [0..<n + unchanged_threshold])"
  unfolding collect_input_def
  using collect_loop_returns [OF assms sampler_inv_init] by simp

lemma collect_loop_Some_stable:
  assumes "collect_loop inp k uc last_level data = Some y"
  shows "sampler_inv inp k uc last_level data \<longrightarrow> (\<exists>m. stable_at inp m)"
proof (rule collect_loop.raw_induct
    [where P = "\<lambda>inp k uc last_level data y.
                  sampler_inv inp k uc last_level data \<longrightarrow> (\<exists>m. stable_at inp m)",
     OF _ assms])
  fix f :: "(nat \<Rightarrow> bool) \<Rightarrow> nat \<Rightarrow> nat \<Rightarrow> bool option \<Rightarrow> bool list \<Rightarrow> bool list option"
    and inp k uc last_level data y
  assume IH: "\<And>inp k uc last_level data y. f inp k uc last_level data = Some y \<Longrightarrow>
                sampler_inv inp k uc last_level data \<longrightarrow> (\<exists>m. stable_at inp m)"
    and body: "(if uc < unchanged_threshold then
                  (let current = inp k; data' = data @ [current] in
                     if last_level \<noteq> Some current
                     then f inp (k + 1) (0 + 1) (Some current) data'
                     else f inp (k + 1) (uc + 1) last_level data')
                else Some data) = Some y"
  show "sampler_inv inp k uc last_level data \<longrightarrow> (\<exists>m. stable_at inp m)"
  proof
    assume inv: "sampler_inv inp k uc last_level data"
    show "\<exists>m. stable_at inp m"
    proof (cases "uc < unchanged_threshold")
      case True
      with body have eq: "f inp (Suc k) (if last_level \<noteq> Some (inp k) then 1 else uc + 1)
                            (Some (inp k)) (data @ [inp k]) = Some y"
        by (auto simp: Let_def split: if_splits)
      from IH [OF eq] sampler_inv_step [OF inv] show ?thesis
        by blast
    next
      case False
      with sampler_inv_exit [OF inv] show ?thesis
        by auto
    qed
  qed
qed

lemma collect_input_diverges:
  assumes "\<forall>m. \<not> stable_at inp m"
  shows "collect_input inp = None"
proof (cases "collect_input inp")
  case None
  then show ?thesis .
next
  case (Some y)
  then have "\<exists>m. stable_at inp m"
    unfolding collect_input_def using collect_loop_Some_stable sampler_inv_init by blast
  with assms show ?thesis by blast
qed

text \<open>A trace the sampler returns has at least 200 samples.\<close>

lemma collect_loop_Some_length:
  assumes "collect_loop inp k uc last_level data = Some y"
  shows "sampler_inv inp k uc last_level data \<longrightarrow> unchanged_threshold \<le> length y"
proof (rule collect_loop.raw_induct
    [where P = "\<lambda>inp k uc last_level data y.
                  sampler_inv inp k uc last_level data \<longrightarrow> unchanged_threshold \<le> length y",
     OF _ assms])
  fix f :: "(nat \<Rightarrow> bool) \<Rightarrow> nat \<Rightarrow> nat \<Rightarrow> bool option \<Rightarrow> bool list \<Rightarrow> bool list option"
    and inp k uc last_level data y
  assume IH: "\<And>inp k uc last_level data y. f inp k uc last_level data = Some y \<Longrightarrow>
                sampler_inv inp k uc last_level data \<longrightarrow> unchanged_threshold \<le> length y"
    and body: "(if uc < unchanged_threshold then
                  (let current = inp k; data' = data @ [current] in
                     if last_level \<noteq> Some current
                     then f inp (k + 1) (0 + 1) (Some current) data'
                     else f inp (k + 1) (uc + 1) last_level data')
                else Some data) = Some y"
  show "sampler_inv inp k uc last_level data \<longrightarrow> unchanged_threshold \<le> length y"
  proof
    assume inv: "sampler_inv inp k uc last_level data"
    show "unchanged_threshold \<le> length y"
    proof (cases "uc < unchanged_threshold")
      case True
      with body have eq: "f inp (Suc k) (if last_level \<noteq> Some (inp k) then 1 else uc + 1)
                            (Some (inp k)) (data @ [inp k]) = Some y"
        by (auto simp: Let_def split: if_splits)
      from IH [OF eq] sampler_inv_step [OF inv] show ?thesis
        by blast
    next
      case False
      with body have "y = data"
        by simp
      moreover have "length data = k"
        using sampler_invD(1) [OF inv] by simp
      ultimately show ?thesis
        using False sampler_invD(3) [OF inv] by simp
    qed
  qed
qed

lemma collect_input_nonempty:
  assumes "collect_input inp = Some data"
  shows "unchanged_threshold \<le> length data \<and> data \<noteq> []"
proof -
  have "unchanged_threshold \<le> length data"
    using assms collect_loop_Some_length sampler_inv_init
    unfolding collect_input_def by blast
  then show ?thesis
    by (auto simp: unchanged_threshold_def)
qed

lemma unstable_step:
  assumes "inp (m + 1) \<noteq> inp m"
  shows "\<not> stable_at inp m"
proof
  assume "stable_at inp m"
  then have "inp (m + 1) = inp m"
    unfolding stable_at_def unchanged_threshold_def by (elim allE [of _ 1]) simp
  with assms show False
    by simp
qed

lemma alternating_unstable: "\<not> stable_at alternating_line m"
  by (rule unstable_step) (simp add: alternating_line_def)

lemma idle_stable: "stable_at idle_line 0"
  by (simp add: stable_at_def idle_line_def)

lemma collect_input_idle: "collect_input idle_line = Some (replicate 200 GPIO_LOW)"
  using collect_input_first_stable [OF idle_stable]
  by (simp add: unchanged_threshold_def idle_line_def [abs_def] map_replicate_const)

lemma attempt_idle: "attempt idle_line = Some (Inl DHT11InvalidDataError)"
  using parse_no_marker [of 0 200 0]
  by (simp add: attempt_def collect_input_idle)

lemma stable_run_preceded:
  assumes stable: "stable_at inp n" and first: "\<forall>m<n. \<not> stable_at inp m" and pos: "0 < n"
  shows "inp (n - 1) \<noteq> inp n"
proof
  assume same: "inp (n - 1) = inp n"
  have w: "inp (n + j) = inp n" if "j < unchanged_threshold" for j
    using stable that unfolding stable_at_def by blast
  have "inp (n - 1 + j) = inp (n - 1)" if j: "j < unchanged_threshold" for j
  proof (cases j)
    case 0
    then show ?thesis by simp
  next
    case (Suc j')
    then have "j' < unchanged_threshold"
      using j by simp
    from w [OF this] have "inp (n + j') = inp n" .
    moreover have "n - 1 + j = n + j'"
      using Suc pos by simp
    ultimately show ?thesis
      using same by simp
  qed
  then have "stable_at inp (n - 1)"
    unfolding stable_at_def by blast
  moreover have "n - 1 < n"
    using pos by simp
  ultimately show False
    using first by blast
qed

text \<open>
  C9. The sampler appends the level of every poll and stops exactly when a run of 200
  identical levels is complete: when \<open>n\<close> is the first poll at which such a run starts, it
  returns the first \<open>n + 200\<close> levels of the line. No shorter identical run stops it, and
  the run that does is preceded by a differing level (or starts the trace).
\<close>

theorem collect_input_stops_at_first_stable_run:
  assumes "stable_at inp n" and "\<forall>m<n. \<not> stable_at inp m"
  shows "collect_input inp = Some (map inp [0..<n + unchanged_threshold])
         \<and> (0 < n \<longrightarrow> inp (n - 1) \<noteq> inp n)"
  using collect_input_first_stable [OF assms] stable_run_preceded [OF assms] by blast

theorem collect_input_stops_at_first_stable_run_witness:
  "stable_at (stream_of [True, False, True]) 3
   \<and> \<not> stable_at (stream_of [True, False, True]) 0
   \<and> \<not> stable_at (stream_of [True, False, True]) 1
   \<and> \<not> stable_at (stream_of [True, False, True]) 2
   \<and> collect_input (stream_of [True, False, True])
       = Some (map (stream_of [True, False, True]) [0..<3 + unchanged_threshold])
   \<and> stream_of [True, False, True] 2 \<noteq> stream_of [True, False, True] 3"
proof -
  let ?inp = "stream_of [True, False, True]"
  have stable: "stable_at ?inp 3"
    by (simp add: stable_at_def stream_of_def)
  have first: "\<forall>m<3. \<not> stable_at ?inp m"
  proof (intro allI impI)
    fix m :: nat assume "m < 3"
    then have "m = 0 \<or> m = 1 \<or> m = 2"
      by arith
    then have "?inp (m + 1) \<noteq> ?inp m"
      by (auto simp: stream_of_def GPIO_LOW_def)
    then show "\<not> stable_at ?inp m"
      by (rule unstable_step)
  qed
  show ?thesis
    using collect_input_stops_at_first_stable_run [OF stable first] stable first by simp
qed


section \<open>Attempts on the sample lines\<close>

lemma attempt_sample:
  "attempt (stream_of sample_trace) =
     Some (Inr \<lparr>status = 0, temperature = 47 / 2, humidity = 201 / 5\<rparr>)"
  by code_simp

lemma attempt_always_idle: "\<forall>i<k. \<exists>e. attempt (always_idle i) = Some (Inl e) \<and> is_DHT11Error e"
  by (simp add: always_idle_def attempt_idle)

lemma attempt_idle_then_frame_fail:
  "\<forall>i<k. \<exists>e. attempt (idle_then_frame k i) = Some (Inl e) \<and> is_DHT11Error e"
  by (simp add: idle_then_frame_def attempt_idle)

lemma attempt_idle_then_frame_ok:
  "attempt (idle_then_frame k k) =
     Some (Inr \<lparr>status = 0, temperature = 47 / 2, humidity = 201 / 5\<rparr>)"
  by (simp add: idle_then_frame_def attempt_sample)

section \<open>The retry controller\<close>

lemma read_loop_failures:
  assumes "\<forall>i<k. \<exists>e. attempt (env (t + i)) = Some (Inl e) \<and> is_DHT11Error e"
    and "\<forall>i<k. int (t + i) < max_tries self"
    and "k = 0 \<or> 0 \<le> min_interval self"
  shows "read_loop self env t ev = read_loop self env (t + k) (ev @ retry_events self k)"
  using assms
proof (induction k arbitrary: t ev)
  case 0
  show ?case by (simp add: retry_events_def)
next
  case (Suc k)
  from Suc.prems(1) obtain e where e: "attempt (env t) = Some (Inl e)" "is_DHT11Error e"
    by force
  have run: "int t < max_tries self"
    using Suc.prems(2) by force
  have shift: "Suc t + i = t + Suc i" for i
    by simp
  have rest: "\<forall>i<k. \<exists>e. attempt (env (Suc t + i)) = Some (Inl e) \<and> is_DHT11Error e"
    unfolding shift using Suc.prems(1) by blast
  have bound: "\<forall>i<k. int (Suc t + i) < max_tries self"
    unfolding shift using Suc.prems(2) by blast
  have interval: "0 \<le> min_interval self"
    using Suc.prems(3) by simp
  have "read_loop self env t ev =
          read_loop self env (Suc t) (ev @ attempt_events self @ [Sleep (min_interval self)])"
    using e run interval by (subst read_loop.simps) simp
  also have "\<dots> = read_loop self env (Suc t + k)
                     ((ev @ attempt_events self @ [Sleep (min_interval self)]) @ retry_events self k)"
    using interval by (intro Suc.IH [OF rest bound]) simp
  finally show ?case
    by (simp add: retry_events_def)
qed

lemma read_success:
  assumes "\<forall>i<k. \<exists>e. attempt (env i) = Some (Inl e) \<and> is_DHT11Error e"
    and "int k < max_tries self" and "attempt (env k) = Some (Inr r)"
    and "k = 0 \<or> 0 \<le> min_interval self"
  shows "read self env = Some (Inr r, retry_events self k @ attempt_events self)"
proof -
  have "read_loop self env 0 [] = read_loop self env (0 + k) ([] @ retry_events self k)"
    using assms(1,2,4) by (intro read_loop_failures) auto
  also have "\<dots> = Some (Inr r, retry_events self k @ attempt_events self)"
    using assms(2,3) by (subst read_loop.simps) simp
  finally show ?thesis
    by (simp add: read_def)
qed

lemma read_exhausted:
  assumes "\<forall>i<nat (max_tries self). \<exists>e. attempt (env i) = Some (Inl e) \<and> is_DHT11Error e"
    and "0 \<le> min_interval self"
  shows "read self env =
           (case raise_error self of
              None \<Rightarrow> Some (Inl AttributeError, retry_events self (nat (max_tries self)))
            | Some flag \<Rightarrow>
                if flag then Some (Inl DHT11TimeoutError, retry_events self (nat (max_tries self)))
                else Some (Inr (DHT11Response_status STATUS_ERROR_TIMEOUT),
                           retry_events self (nat (max_tries self))))"
proof -
  let ?k = "nat (max_tries self)"
  have "read_loop self env 0 [] = read_loop self env (0 + ?k) ([] @ retry_events self ?k)"
    using assms by (intro read_loop_failures) auto
  also have "\<dots> = (case raise_error self of
              None \<Rightarrow> Some (Inl AttributeError, retry_events self ?k)
            | Some flag \<Rightarrow>
                if flag then Some (Inl DHT11TimeoutError, retry_events self ?k)
                else Some (Inr (DHT11Response_status STATUS_ERROR_TIMEOUT), retry_events self ?k))"
    by (subst read_loop.simps) (simp split: option.splits)
  finally show ?thesis
    by (simp add: read_def)
qed

lemma read_diverges:
  assumes "\<forall>i<k. \<exists>e. attempt (env i) = Some (Inl e) \<and> is_DHT11Error e"
    and "int k < max_tries self" and "attempt (env k) = None"
    and "k = 0 \<or> 0 \<le> min_interval self"
  shows "read self env = None"
proof -
  have "read_loop self env 0 [] = read_loop self env (0 + k) ([] @ retry_events self k)"
    using assms(1,2,4) by (intro read_loop_failures) auto
  also have "\<dots> = None"
    using assms(2,3) by (subst read_loop.simps) simp
  finally show ?thesis
    by (simp add: read_def)
qed

text \<open>With a negative interval the first caught failure ends \<^verbatim>\<open>read\<close> with \<^verbatim>\<open>ValueError\<close>.\<close>

lemma read_negative_interval:
  assumes "min_interval self < 0" and "0 < max_tries self"
    and "attempt (env 0) = Some (Inl e)" and "is_DHT11Error e"
  shows "read self env = Some (Inl ValueError, attempt_events self)"
  unfolding read_def using assms by (subst read_loop.simps) simp

lemma attempt_Inr_status:
  assumes "attempt inp = Some (Inr r)"
  shows "status r = STATUS_OK"
  using assms
  by (auto simp: attempt_def response_of_bytes_def DHT11Response_init_def Let_def
           split: option.splits sum.splits if_splits)

lemma read_loop_status:
  assumes "read_loop self env t ev = Some (Inr r, ev')"
  shows "status r = STATUS_OK \<or> status r = STATUS_ERROR_TIMEOUT"
  using assms
proof (induction self env t ev rule: read_loop.induct)
  case (1 self env try_count events)
  show ?case
  proof (cases "max_tries self > int try_count")
    case False
    with "1.prems" show ?thesis
      by (subst (asm) read_loop.simps)
         (auto simp: DHT11Response_status_def DHT11Response_init_def split: option.splits if_splits)
  next
    case True
    show ?thesis
    proof (cases "attempt (env try_count)")
      case None
      with True "1.prems" show ?thesis
        by (subst (asm) read_loop.simps) simp
    next
      case (Some res)
      show ?thesis
      proof (cases res)
        case (Inr response)
        with True Some "1.prems" have "response = r"
          by (subst (asm) read_loop.simps) simp
        with Inr Some attempt_Inr_status show ?thesis
          by blast
      next
        case (Inl e)
        show ?thesis
        proof (cases "is_DHT11Error e")
          case dht: True
          show ?thesis
          proof (cases "min_interval self < 0")
            case negative: True
            with True Some Inl dht "1.prems" show ?thesis
              by (subst (asm) read_loop.simps) simp
          next
            case nonneg: False
            with True Some Inl dht "1.prems"
            have "read_loop self env (try_count + 1)
                    (events @ attempt_events self @ [Sleep (min_interval self)]) = Some (Inr r, ev')"
              by (subst (asm) read_loop.simps) simp
            from "1.IH" [OF True Some Inl dht nonneg this] show ?thesis .
          qed
        next
          case False
          with True Some Inl "1.prems" show ?thesis
            by (subst (asm) read_loop.simps) simp
        qed
      qed
    qed
  qed
qed



text \<open>
  C10. A response returned by \<^verbatim>\<open>read\<close> never has the status ChecksumError (1): its status
  is Ok (0) or TimeoutError (2), whatever the attempts do.
\<close>

theorem read_status_never_checksum:
  assumes "read self env = Some (Inr r, events)"
  shows "status r \<noteq> STATUS_ERROR_CHECKSUM
         \<and> (status r = STATUS_OK \<or> status r = STATUS_ERROR_TIMEOUT)"
  using read_loop_status [of self env 0 "[]" r events] assms
  by (auto simp: read_def STATUS_OK_def STATUS_ERROR_TIMEOUT_def STATUS_ERROR_CHECKSUM_def)

theorem read_status_never_checksum_witness:
  "read (DHT11_init 26 10 2 False) (idle_then_frame 0) =
     Some (Inr \<lparr>status = 0, temperature = 47 / 2, humidity = 201 / 5\<rparr>,
           attempt_events (DHT11_init 26 10 2 False))
   \<and> status \<lparr>status = 0, temperature = 47 / 2, humidity = 201 / 5\<rparr> \<noteq> STATUS_ERROR_CHECKSUM
   \<and> (status \<lparr>status = 0, temperature = 47 / 2, humidity = 201 / 5\<rparr> = STATUS_OK
        \<or> status \<lparr>status = 0, temperature = 47 / 2, humidity = 201 / 5\<rparr> = STATUS_ERROR_TIMEOUT)"
proof -
  have tries: "int 0 < max_tries (DHT11_init 26 10 2 False)"
    by (simp add: DHT11_init_def)
  have returned: "read (DHT11_init 26 10 2 False) (idle_then_frame 0) =
     Some (Inr \<lparr>status = 0, temperature = 47 / 2, humidity = 201 / 5\<rparr>,
           attempt_events (DHT11_init 26 10 2 False))"
    using read_success [OF attempt_idle_then_frame_fail tries attempt_idle_then_frame_ok]
    by (simp add: retry_events_def)
  show ?thesis
    using read_status_never_checksum [OF returned] returned by simp
qed

text \<open>
  C1, on a sensor built by the constructor with \<open>max_tries = 3\<close> and a line that stays
  idle, so that every attempt raises \<^verbatim>\<open>DHT11InvalidDataError\<close>. After exactly three
  attempts and three delays \<^verbatim>\<open>read\<close> evaluates \<^verbatim>\<open>self.raise_error\<close>, which the constructor
  never assigned: it raises \<^verbatim>\<open>AttributeError\<close>, whether \<^verbatim>\<open>raise_error\<close> was passed as False or
  as True. It neither returns the TimeoutError response nor raises \<^verbatim>\<open>DHT11TimeoutError\<close>.
  (On an object that has the attribute, \<open>read_exhausted\<close> shows both behaviours.)
\<close>

theorem read_exhausted_raises_AttributeError:
  "read (DHT11_init 26 3 2 False) always_idle =
     Some (Inl AttributeError,
           concat (replicate 3 (attempt_events (DHT11_init 26 3 2 False) @ [Sleep 2])))
   \<and> read (DHT11_init 26 3 2 True) always_idle =
     Some (Inl AttributeError,
           concat (replicate 3 (attempt_events (DHT11_init 26 3 2 True) @ [Sleep 2])))"
  using read_exhausted [OF attempt_always_idle, of "DHT11_init 26 3 2 False"]
    read_exhausted [OF attempt_always_idle, of "DHT11_init 26 3 2 True"]
  by (simp add: DHT11_init_def retry_events_def)

lemma attempt_diverges:
  assumes "\<forall>m. \<not> stable_at inp m"
  shows "attempt inp = None"
  by (simp add: attempt_def collect_input_diverges [OF assms])

text \<open>
  C3, amended. If the line never stabilises (no run of 200 identical polls ever occurs),
  the acquisition does not fail with a timeout or any other \<^verbatim>\<open>DHT11Error\<close>, and it returns
  no trace: the polling loop has no bound. So the retry controller never classifies that
  attempt as a failure and never retries it, and \<^verbatim>\<open>read\<close> returns no reading, whichever
  attempt meets such a line: the first, or one after \<open>k\<close> caught failures.
\<close>

theorem collect_input_never_returns_on_unstable_line:
  assumes "\<forall>m. \<not> stable_at inp m"
  shows "collect_input inp = None \<and> attempt inp = None
         \<and> (\<forall>self env k.
               int k < max_tries self \<and> env k = inp
               \<and> (\<forall>i<k. \<exists>e. attempt (env i) = Some (Inl e) \<and> is_DHT11Error e)
               \<and> (k = 0 \<or> 0 \<le> min_interval self)
               \<longrightarrow> read self env = None)"
proof -
  have none: "attempt inp = None"
    by (rule attempt_diverges [OF assms])
  have "read self env = None"
    if "int k < max_tries self" and "env k = inp"
      and "\<forall>i<k. \<exists>e. attempt (env i) = Some (Inl e) \<and> is_DHT11Error e"
      and "k = 0 \<or> 0 \<le> min_interval self"
    for self env k
    using that none by (intro read_diverges [of k env self]) simp_all
  then show ?thesis
    using collect_input_diverges [OF assms] none by blast
qed

theorem collect_input_never_returns_on_unstable_line_witness:
  "(\<forall>m. \<not> stable_at alternating_line m)
   \<and> int 1 < max_tries (DHT11_init 4 3 MIN_INTERVAL True)
   \<and> idle_then_alternating 1 1 = alternating_line
   \<and> attempt (idle_then_alternating 1 0) = Some (Inl DHT11InvalidDataError)
   \<and> is_DHT11Error DHT11InvalidDataError
   \<and> 0 \<le> min_interval (DHT11_init 4 3 MIN_INTERVAL True)
   \<and> collect_input alternating_line = None \<and> attempt alternating_line = None
   \<and> read (DHT11_init 4 3 MIN_INTERVAL True) (idle_then_alternating 1) = None"
proof -
  have unstable: "\<forall>m. \<not> stable_at alternating_line m"
    by (simp add: alternating_unstable)
  have tries: "int 1 < max_tries (DHT11_init 4 3 MIN_INTERVAL True)"
    by (simp add: DHT11_init_def)
  have line: "idle_then_alternating 1 1 = alternating_line"
    by (simp add: idle_then_alternating_def)
  have failed: "attempt (idle_then_alternating 1 0) = Some (Inl DHT11InvalidDataError)"
    by (simp add: idle_then_alternating_def attempt_idle)
  have failures: "\<forall>i<1. \<exists>e. attempt (idle_then_alternating 1 i) = Some (Inl e) \<and> is_DHT11Error e"
    using failed by simp
  have interval: "0 \<le> min_interval (DHT11_init 4 3 MIN_INTERVAL True)"
    by (simp add: DHT11_init_def MIN_INTERVAL_def)
  have "read (DHT11_init 4 3 MIN_INTERVAL True) (idle_then_alternating 1) = None"
    using collect_input_never_returns_on_unstable_line [OF unstable] tries line failures interval
    by blast
  then show ?thesis
    using collect_input_never_returns_on_unstable_line [OF unstable]
      unstable tries line failed interval
    by simp
qed

text \<open>
  C3 as stated fails on a line that changes at every poll: the acquisition does not end
  with an error that the controller could classify and retry; no trace and no
  \<^verbatim>\<open>DHT11Error\<close> come back from it, and \<^verbatim>\<open>read\<close> returns nothing.
\<close>

theorem acquisition_timeout_counterexample:
  "collect_input alternating_line = None
   \<and> attempt alternating_line = None
   \<and> read (DHT11_init 26 10 2 False) always_alternating = None"
proof -
  have unstable: "\<forall>m. \<not> stable_at alternating_line m"
    by (simp add: alternating_unstable)
  have "read (DHT11_init 26 10 2 False) always_alternating = None"
    by (rule read_diverges [of 0])
       (simp_all add: always_alternating_def DHT11_init_def attempt_diverges [OF unstable])
  then show ?thesis
    using collect_input_diverges [OF unstable] attempt_diverges [OF unstable] by simp
qed

end
